theory Spec2Isabelle
  imports Main
begin

section \<open>The regular-expression engine behind the tokenizer\<close>

text \<open>
  \<^verbatim>\<open>lib/nltk/tokenize/regexp.py\<close> delegates all matching to the standard module
  \<^verbatim>\<open>re\<close> of the interpreter (\<^verbatim>\<open>re.compile\<close>, \<^verbatim>\<open>findall\<close>, \<^verbatim>\<open>split\<close>,
  \<^verbatim>\<open>finditer\<close>). The application is a Python 2 program (\<^verbatim>\<open>main.py\<close> calls
  \<^verbatim>\<open>unicode\<close>; the tokenizer module imports \<^verbatim>\<open>unicode_literals\<close> from
  \<^verbatim>\<open>__future__\<close>), so this section models the behaviour of CPython 2.7's \<^verbatim>\<open>re\<close>
  for a fragment of the pattern language: literals, \<^verbatim>\<open>.\<close>, \<^verbatim>\<open>^\<close>, \<^verbatim>\<open>$\<close>, character
  classes, the class escapes \<^verbatim>\<open>\s \S \w \W \d \D\<close>, the control escapes, alternation,
  capturing and non-capturing groups and the greedy quantifiers \<^verbatim>\<open>* + ?\<close>.
  A pattern outside this fragment compiles to \<open>NotModelled\<close>; nothing is claimed for it.
  Text is a list of 8-bit characters; without the flag \<^verbatim>\<open>re.UNICODE\<close> the classes are
  the ASCII ones.
\<close>

subsection \<open>Compiled patterns\<close>

datatype category = Space | NotSpace | Word | NotWord | Digit | NotDigit

datatype citem = Ch char | CRange char char | Cat category

datatype regex =
    Empty
  | Lit char
  | AnyChar
  | In bool "citem list"
  | Bol
  | Eol
  | Seq regex regex
  | Alt regex regex
  | Star regex
  | Plus regex
  | Opt regex
  | Group "nat option" regex

text \<open>The flag bits of \<^verbatim>\<open>re\<close>: \<^verbatim>\<open>re.MULTILINE = 8\<close>, \<^verbatim>\<open>re.DOTALL = 16\<close>,
  \<^verbatim>\<open>re.UNICODE = 32\<close>.\<close>

definition re_MULTILINE :: nat where "re_MULTILINE = 8"
definition re_DOTALL :: nat where "re_DOTALL = 16"
definition re_UNICODE :: nat where "re_UNICODE = 32"

definition has_flag :: "nat \<Rightarrow> nat \<Rightarrow> bool" where
  "has_flag fl b = (fl div b mod 2 = 1)"

record re_pattern =
  re_code :: regex
  re_groups :: nat
  re_flags :: nat

subsection \<open>Character classes\<close>

definition ord :: "char \<Rightarrow> nat" where
  "ord c = of_char c"

definition is_space :: "char \<Rightarrow> bool" where
  "is_space c = (ord c = 32 \<or> (9 \<le> ord c \<and> ord c \<le> 13))"

definition is_digit :: "char \<Rightarrow> bool" where
  "is_digit c = (48 \<le> ord c \<and> ord c \<le> 57)"

definition is_word :: "char \<Rightarrow> bool" where
  "is_word c = (is_digit c \<or> (65 \<le> ord c \<and> ord c \<le> 90) \<or> (97 \<le> ord c \<and> ord c \<le> 122)
                 \<or> ord c = 95)"

fun in_category :: "category \<Rightarrow> char \<Rightarrow> bool" where
  "in_category Space c = is_space c"
| "in_category NotSpace c = (\<not> is_space c)"
| "in_category Word c = is_word c"
| "in_category NotWord c = (\<not> is_word c)"
| "in_category Digit c = is_digit c"
| "in_category NotDigit c = (\<not> is_digit c)"

fun in_item :: "citem \<Rightarrow> char \<Rightarrow> bool" where
  "in_item (Ch d) c = (c = d)"
| "in_item (CRange lo hi) c = (ord lo \<le> ord c \<and> ord c \<le> ord hi)"
| "in_item (Cat k) c = in_category k c"

definition in_class :: "bool \<Rightarrow> citem list \<Rightarrow> char \<Rightarrow> bool" where
  "in_class neg items c = (list_ex (\<lambda>it. in_item it c) items \<noteq> neg)"

subsection \<open>The backtracking matcher\<close>

text \<open>
  A matcher state is the current position and the spans captured so far, one slot for
  each group. \<open>rmatch\<close> returns every state in which the expression can finish, in the
  order in which the backtracking engine tries them: the first alternative before the
  second, one more iteration before stopping. The head of the list is the match the
  engine reports. An iteration of a repetition that consumes nothing is not repeated.
\<close>

type_synonym mstate = "nat \<times> (nat \<times> nat) option list"

definition newline :: char where
  "newline = CHR 0x0A"

fun rweight :: "regex \<Rightarrow> nat" where
  "rweight (Seq a b) = Suc (rweight a + rweight b)"
| "rweight (Alt a b) = Suc (rweight a + rweight b)"
| "rweight (Star a) = Suc (rweight a)"
| "rweight (Plus a) = Suc (Suc (rweight a))"
| "rweight (Opt a) = Suc (rweight a)"
| "rweight (Group k a) = Suc (rweight a)"
| "rweight r = 0"

function rmatch :: "nat \<Rightarrow> regex \<Rightarrow> string \<Rightarrow> mstate \<Rightarrow> mstate list" where
  "rmatch fl Empty s st = [st]"
| "rmatch fl (Lit c) s st =
     (if fst st < length s \<and> s ! fst st = c then [(Suc (fst st), snd st)] else [])"
| "rmatch fl AnyChar s st =
     (if fst st < length s \<and> (has_flag fl re_DOTALL \<or> s ! fst st \<noteq> newline)
      then [(Suc (fst st), snd st)] else [])"
| "rmatch fl (In neg items) s st =
     (if fst st < length s \<and> in_class neg items (s ! fst st)
      then [(Suc (fst st), snd st)] else [])"
| "rmatch fl Bol s st =
     (if fst st = 0 \<or> (has_flag fl re_MULTILINE \<and> fst st \<le> length s
                        \<and> s ! (fst st - 1) = newline)
      then [st] else [])"
| "rmatch fl Eol s st =
     (if fst st = length s \<or> (Suc (fst st) = length s \<and> s ! fst st = newline)
         \<or> (has_flag fl re_MULTILINE \<and> fst st < length s \<and> s ! fst st = newline)
      then [st] else [])"
| "rmatch fl (Seq a b) s st = concat (map (rmatch fl b s) (rmatch fl a s st))"
| "rmatch fl (Alt a b) s st = rmatch fl a s st @ rmatch fl b s st"
| "rmatch fl (Star a) s st =
     concat (map (\<lambda>st'. if fst st < fst st' \<and> fst st' \<le> length s
                         then rmatch fl (Star a) s st' else [])
                 (rmatch fl a s st)) @ [st]"
| "rmatch fl (Plus a) s st = concat (map (rmatch fl (Star a) s) (rmatch fl a s st))"
| "rmatch fl (Opt a) s st = rmatch fl a s st @ [st]"
| "rmatch fl (Group g a) s st =
     map (\<lambda>st'. (fst st', (case g of None \<Rightarrow> snd st'
                                 | Some k \<Rightarrow> (snd st')[k - 1 := Some (fst st, fst st')])))
         (rmatch fl a s st)"
  by pat_completeness auto
termination
  by (relation "measures [\<lambda>(fl, r, s, st). rweight r, \<lambda>(fl, r, s, st). length s - fst st]")
     auto

declare rmatch.simps(9) [simp del]

subsection \<open>Match objects and searching\<close>

record match =
  m_start :: nat
  m_end :: nat
  m_groups :: "(nat \<times> nat) option list"

definition match_at :: "re_pattern \<Rightarrow> string \<Rightarrow> nat \<Rightarrow> match option" where
  "match_at p s i =
     (case rmatch (re_flags p) (re_code p) s (i, replicate (re_groups p) None) of
        [] \<Rightarrow> None
      | st # _ \<Rightarrow> Some \<lparr>m_start = i, m_end = fst st, m_groups = snd st\<rparr>)"

text \<open>The leftmost match that starts at or after \<open>pos\<close>; none once \<open>pos\<close> is past the
  end of the text.\<close>

function search :: "re_pattern \<Rightarrow> string \<Rightarrow> nat \<Rightarrow> match option" where
  "search p s pos =
     (if length s < pos then None
      else (case match_at p s pos of
              Some m \<Rightarrow> Some m
            | None \<Rightarrow> search p s (Suc pos)))"
  by pat_completeness auto
termination
  by (relation "measure (\<lambda>(p, s, pos). Suc (length s) - pos)") auto

declare search.simps [simp del]

text \<open>Every state the matcher returns lies between the start position and the end of
  the text, so a match is a span \<open>start \<le> end \<le> length s\<close> at or after the position
  the search started from.\<close>

lemma rmatch_bounds:
  "st' \<in> set (rmatch fl r s st) \<Longrightarrow> fst st \<le> length s \<Longrightarrow> fst st \<le> fst st' \<and> fst st' \<le> length s"
proof (induction fl r s st arbitrary: st' rule: rmatch.induct)
  case (7 fl a b s st)
  from "7.prems"(1) obtain st1 where a: "st1 \<in> set (rmatch fl a s st)"
    and b: "st' \<in> set (rmatch fl b s st1)" by auto
  from "7.IH"(1)[OF a "7.prems"(2)] have 1: "fst st \<le> fst st1" "fst st1 \<le> length s" by simp_all
  from "7.IH"(2)[OF a b 1(2)] 1 show ?case by simp
next
  case (8 fl a b s st)
  from "8.prems"(1) have "st' \<in> set (rmatch fl a s st) \<or> st' \<in> set (rmatch fl b s st)" by simp
  with "8.IH" "8.prems"(2) show ?case by blast
next
  case (9 fl a s st)
  show ?case
  proof (cases "st' = st")
    case True
    with "9.prems"(2) show ?thesis by simp
  next
    case False
    note eq = rmatch.simps(9)[of fl a s st]
    from False "9.prems"(1) obtain st1 where a: "st1 \<in> set (rmatch fl a s st)"
      and g: "fst st < fst st1 \<and> fst st1 \<le> length s"
      and b: "st' \<in> set (rmatch fl (Star a) s st1)"
      unfolding eq by (auto split: if_splits)
    from "9.IH"(2)[OF a g b] g show ?thesis by simp
  qed
next
  case (10 fl a s st)
  from "10.prems"(1) obtain st1 where a: "st1 \<in> set (rmatch fl a s st)"
    and b: "st' \<in> set (rmatch fl (Star a) s st1)" by auto
  from "10.IH"(1)[OF a "10.prems"(2)] have 1: "fst st \<le> fst st1" "fst st1 \<le> length s" by simp_all
  from "10.IH"(2)[OF a b 1(2)] 1 show ?case by simp
next
  case (11 fl a s st)
  from "11.prems"(1) consider (more) "st' \<in> set (rmatch fl a s st)" | (stop) "st' = st" by auto
  then show ?case
  proof cases
    case more
    from "11.IH"[OF more "11.prems"(2)] show ?thesis .
  next
    case stop
    with "11.prems"(2) show ?thesis by simp
  qed
next
  case (12 fl g a s st)
  from "12.prems"(1) obtain st1 where a: "st1 \<in> set (rmatch fl a s st)" and "fst st' = fst st1"
    by auto
  with "12.IH"[OF a "12.prems"(2)] show ?case by simp
qed (simp_all split: if_splits)

lemma match_at_bounds:
  assumes "match_at p s i = Some m" and "i \<le> length s"
  shows "m_start m = i \<and> i \<le> m_end m \<and> m_end m \<le> length s"
proof -
  from assms(1) obtain st rest where
    r: "rmatch (re_flags p) (re_code p) s (i, replicate (re_groups p) None) = st # rest"
    and m: "m = \<lparr>m_start = i, m_end = fst st, m_groups = snd st\<rparr>"
    by (auto simp: match_at_def split: list.splits)
  from r have "st \<in> set (rmatch (re_flags p) (re_code p) s (i, replicate (re_groups p) None))"
    by simp
  from rmatch_bounds[OF this] assms(2) m show ?thesis by simp
qed

lemma search_bounds:
  "search p s pos = Some m \<Longrightarrow> pos \<le> m_start m \<and> m_start m \<le> m_end m \<and> m_end m \<le> length s"
proof (induction p s pos rule: search.induct)
  case (1 p s pos)
  show ?case
  proof (cases "length s < pos")
    case True
    with "1.prems" show ?thesis by (simp add: search.simps)
  next
    case False
    show ?thesis
    proof (cases "match_at p s pos")
      case None
      with False "1.prems" have "search p s (Suc pos) = Some m" by (simp add: search.simps[of p s pos])
      with "1.IH"[OF False None] show ?thesis by simp
    next
      case (Some m')
      with False "1.prems" have "m' = m" by (simp add: search.simps[of p s pos])
      with Some False match_at_bounds[of p s pos m] show ?thesis by simp
    qed
  qed
qed

text \<open>Python's \<^verbatim>\<open>text[a:b]\<close> for offsets \<open>0 \<le> a\<close>, \<open>0 \<le> b\<close>.\<close>

definition slice :: "string \<Rightarrow> nat \<Rightarrow> nat \<Rightarrow> string" where
  "slice s a b = take (b - a) (drop a s)"

subsection \<open>Scanning a text: \<^verbatim>\<open>finditer\<close>, \<^verbatim>\<open>findall\<close>, \<^verbatim>\<open>split\<close>\<close>

text \<open>
  The three loops of \<^verbatim>\<open>_sre.c\<close> (CPython 2.7). All of them search from the current
  start position; after an empty match the scanner and \<^verbatim>\<open>findall\<close> restart one
  character further, after a non-empty match at its end. \<^verbatim>\<open>split\<close> skips empty matches
  (it only moves one character on) and puts the text of every group of a separator into
  the result, \<^verbatim>\<open>None\<close> for a group that did not take part in the match.
\<close>

definition next_start :: "match \<Rightarrow> nat" where
  "next_start m = (if m_end m = m_start m then Suc (m_end m) else m_end m)"

function finditer_from :: "re_pattern \<Rightarrow> string \<Rightarrow> nat \<Rightarrow> match list" where
  "finditer_from p s start =
     (case search p s start of
        None \<Rightarrow> []
      | Some m \<Rightarrow> m # finditer_from p s (next_start m))"
  by pat_completeness auto
termination
proof (relation "measure (\<lambda>(p, s, start). Suc (length s) - start)")
  show "wf (measure (\<lambda>(p, s, start). Suc (length s) - start))" by simp
next
  fix p s start m
  assume "search p s start = Some m"
  from search_bounds[OF this]
  show "((p, s, next_start m), (p, s, start)) \<in> measure (\<lambda>(p, s, start). Suc (length s) - start)"
    by (auto simp: next_start_def)
qed

declare finditer_from.simps [simp del]

definition finditer :: "re_pattern \<Rightarrow> string \<Rightarrow> match list" where
  "finditer p s = finditer_from p s 0"

text \<open>Values of the result lists: a string, \<^verbatim>\<open>None\<close>, or a tuple of strings.\<close>

datatype pyval = Str string | PyNone | Tuple "string list"

text \<open>The text of a group, with the empty string for a group that did not match
  (\<^verbatim>\<open>findall\<close>) or \<^verbatim>\<open>None\<close> (\<^verbatim>\<open>split\<close>).\<close>

definition group_text :: "string \<Rightarrow> (nat \<times> nat) option \<Rightarrow> string" where
  "group_text s g = (case g of None \<Rightarrow> [] | Some (a, b) \<Rightarrow> slice s a b)"

definition group_item :: "string \<Rightarrow> (nat \<times> nat) option \<Rightarrow> pyval" where
  "group_item s g = (case g of None \<Rightarrow> PyNone | Some (a, b) \<Rightarrow> Str (slice s a b))"

definition findall_item :: "re_pattern \<Rightarrow> string \<Rightarrow> match \<Rightarrow> pyval" where
  "findall_item p s m =
     (if re_groups p = 0 then Str (slice s (m_start m) (m_end m))
      else if re_groups p = 1 then Str (group_text s (hd (m_groups m)))
      else Tuple (map (group_text s) (m_groups m)))"

function findall_from :: "re_pattern \<Rightarrow> string \<Rightarrow> nat \<Rightarrow> pyval list" where
  "findall_from p s start =
     (if length s < start then []
      else (case search p s start of
              None \<Rightarrow> []
            | Some m \<Rightarrow> findall_item p s m # findall_from p s (next_start m)))"
  by pat_completeness auto
termination
proof (relation "measure (\<lambda>(p, s, start). Suc (length s) - start)")
  show "wf (measure (\<lambda>(p, s, start). Suc (length s) - start))" by simp
next
  fix p s start m
  assume "\<not> length s < start" and "search p s start = Some m"
  from search_bounds[OF this(2)]
  show "((p, s, next_start m), (p, s, start)) \<in> measure (\<lambda>(p, s, start). Suc (length s) - start)"
    by (auto simp: next_start_def)
qed

declare findall_from.simps [simp del]

definition findall :: "re_pattern \<Rightarrow> string \<Rightarrow> pyval list" where
  "findall p s = findall_from p s 0"

function split_from :: "re_pattern \<Rightarrow> string \<Rightarrow> nat \<Rightarrow> nat \<Rightarrow> pyval list" where
  "split_from p s start lastp =
     (case search p s start of
        None \<Rightarrow> [Str (slice s lastp (length s))]
      | Some m \<Rightarrow>
          if m_start m = m_end m then
            (if lastp = length s then [Str (slice s lastp (length s))]
             else split_from p s (Suc (m_end m)) lastp)
          else Str (slice s lastp (m_start m)) # map (group_item s) (m_groups m)
                 @ split_from p s (m_end m) (m_end m))"
  by pat_completeness auto
termination
proof (relation "measure (\<lambda>(p, s, start, lastp). Suc (length s) - start)")
  show "wf (measure (\<lambda>(p, s, start, lastp). Suc (length s) - start))" by simp
next
  fix p s start lastp m
  assume "search p s start = Some m" and "m_start m = m_end m"
  from search_bounds[OF this(1)]
  show "((p, s, Suc (m_end m), lastp), (p, s, start, lastp))
          \<in> measure (\<lambda>(p, s, start, lastp). Suc (length s) - start)"
    by auto
next
  fix p s start lastp m
  assume "search p s start = Some m" and "m_start m \<noteq> m_end m"
  from search_bounds[OF this(1)] this(2)
  show "((p, s, m_end m, m_end m), (p, s, start, lastp))
          \<in> measure (\<lambda>(p, s, start, lastp). Suc (length s) - start)"
    by auto
qed

declare split_from.simps [simp del]

definition re_split :: "re_pattern \<Rightarrow> string \<Rightarrow> pyval list" where
  "re_split p s = split_from p s 0 0"

subsection \<open>Compiling a pattern: \<^verbatim>\<open>re.compile\<close>\<close>

text \<open>
  \<open>PatternError\<close> is the exception \<^verbatim>\<open>re.error\<close> that \<^verbatim>\<open>re.compile\<close> raises on a
  pattern that is not well formed. \<open>NotModelled\<close> marks a pattern that uses syntax outside
  the fragment (lazy quantifiers, counted repetition, look-around, back-references,
  anchors other than \<^verbatim>\<open>^\<close> and \<^verbatim>\<open>$\<close>, inline flags, hexadecimal and octal escapes, a
  quantifier on an item that can match the empty string, the flag \<^verbatim>\<open>re.UNICODE\<close>).
\<close>

datatype error = PatternError | NotModelled

definition BSL :: char where
  "BSL = CHR 0x5C"

fun category_escape :: "char \<Rightarrow> category option" where
  "category_escape c =
     (if c = CHR ''d'' then Some Digit else if c = CHR ''D'' then Some NotDigit
      else if c = CHR ''s'' then Some Space else if c = CHR ''S'' then Some NotSpace
      else if c = CHR ''w'' then Some Word else if c = CHR ''W'' then Some NotWord
      else None)"

fun control_escape :: "char \<Rightarrow> char option" where
  "control_escape c =
     (if c = CHR ''a'' then Some (CHR 0x07) else if c = CHR ''f'' then Some (CHR 0x0C)
      else if c = CHR ''n'' then Some (CHR 0x0A) else if c = CHR ''r'' then Some (CHR 0x0D)
      else if c = CHR ''t'' then Some (CHR 0x09) else if c = CHR ''v'' then Some (CHR 0x0B)
      else if c = BSL then Some BSL
      else None)"

text \<open>The escape \<^verbatim>\<open>\c\<close> outside a class (\<^verbatim>\<open>_escape\<close> of \<^verbatim>\<open>sre_parse.py\<close>) and inside
  one (\<^verbatim>\<open>_class_escape\<close>, where \<^verbatim>\<open>\b\<close> is the backspace character).\<close>

definition escape :: "char \<Rightarrow> error + regex" where
  "escape c =
     (case category_escape c of
        Some k \<Rightarrow> Inr (In False [Cat k])
      | None \<Rightarrow>
          if c = CHR ''A'' \<or> c = CHR ''b'' \<or> c = CHR ''B'' \<or> c = CHR ''Z'' then Inl NotModelled
          else (case control_escape c of
                  Some d \<Rightarrow> Inr (Lit d)
                | None \<Rightarrow> if c = CHR ''x'' \<or> is_digit c then Inl NotModelled else Inr (Lit c)))"

definition class_escape :: "char \<Rightarrow> error + citem" where
  "class_escape c =
     (if c = CHR ''b'' then Inr (Ch (CHR 0x08))
      else (case control_escape c of
              Some d \<Rightarrow> Inr (Ch d)
            | None \<Rightarrow>
                (case category_escape c of
                   Some k \<Rightarrow> Inr (Cat k)
                 | None \<Rightarrow> if c = CHR ''x'' \<or> is_digit c then Inl NotModelled else Inr (Ch c))))"

text \<open>One member of a class: a character or an escape; the rest of the pattern follows.\<close>

fun class_atom :: "string \<Rightarrow> error + (citem \<times> string)" where
  "class_atom [] = Inl PatternError"
| "class_atom [c] = (if c = BSL then Inl PatternError else Inr (Ch c, []))"
| "class_atom (c # d # cs) =
     (if c = BSL then (case class_escape d of Inl e \<Rightarrow> Inl e | Inr it \<Rightarrow> Inr (it, cs))
      else Inr (Ch c, d # cs))"

lemma class_atom_shorter:
  "class_atom cs = Inr (it, rest) \<Longrightarrow> length rest < length cs"
  by (induction cs rule: class_atom.induct) (auto split: if_splits sum.splits)

text \<open>The members of a class up to its closing bracket, after \<^verbatim>\<open>[\<close> or \<^verbatim>\<open>[^\<close>. A
  bracket that comes first is a member; \<^verbatim>\<open>a-z\<close> is a range, and a \<^verbatim>\<open>-\<close> before the
  closing bracket is a member.\<close>

function parse_class :: "string \<Rightarrow> citem list \<Rightarrow> error + (citem list \<times> string)" where
  "parse_class cs acc =
     (if cs = [] then Inl PatternError
      else if hd cs = CHR '']'' \<and> acc \<noteq> [] then Inr (rev acc, tl cs)
      else (case class_atom cs of
              Inl e \<Rightarrow> Inl e
            | Inr (code1, rest) \<Rightarrow>
                if rest \<noteq> [] \<and> hd rest = CHR ''-'' then
                  (if tl rest = [] then Inl PatternError
                   else if hd (tl rest) = CHR '']'' then
                     Inr (rev (Ch (CHR ''-'') # code1 # acc), tl (tl rest))
                   else (case class_atom (tl rest) of
                           Inl e \<Rightarrow> Inl e
                         | Inr (code2, rest2) \<Rightarrow>
                             (case (code1, code2) of
                                (Ch lo, Ch hi) \<Rightarrow>
                                  if ord hi < ord lo then Inl PatternError
                                  else parse_class rest2 (CRange lo hi # acc)
                              | _ \<Rightarrow> Inl PatternError)))
                else parse_class rest (code1 # acc)))"
  by pat_completeness auto
termination
proof (relation "measure (\<lambda>(cs, acc). length cs)")
  show "wf (measure (\<lambda>(cs, acc). length cs))" by simp
next
  fix cs :: string and acc :: "citem list" and x code1 rest x2 code2 rest2 lo hi
  assume "class_atom cs = Inr x" "(code1, rest) = x" "rest \<noteq> [] \<and> hd rest = CHR ''-''"
    "class_atom (tl rest) = Inr x2" "(code2, rest2) = x2"
  then have "length rest < length cs" "length rest2 < length (tl rest)"
    using class_atom_shorter[of cs code1 rest] class_atom_shorter[of "tl rest" code2 rest2]
    by auto
  then show "((rest2, CRange lo hi # acc), (cs, acc)) \<in> measure (\<lambda>(cs, acc). length cs)"
    by simp
next
  fix cs :: string and acc :: "citem list" and x code1 rest
  assume "class_atom cs = Inr x" "(code1, rest) = x"
  then have "length rest < length cs"
    using class_atom_shorter[of cs code1 rest] by auto
  then show "((rest, code1 # acc), (cs, acc)) \<in> measure (\<lambda>(cs, acc). length cs)"
    by simp
qed

declare parse_class.simps [simp del]

lemma parse_class_shorter:
  "parse_class cs acc = Inr (items, rest) \<Longrightarrow> length rest < length cs"
proof (induction cs acc rule: parse_class.induct)
  case (1 cs acc)
  note eq = parse_class.simps[of cs acc]
  show ?case
  proof (cases "cs = [] \<or> (hd cs = CHR '']'' \<and> acc \<noteq> [])")
    case True
    with "1.prems" show ?thesis unfolding eq by (cases cs) (auto split: if_splits)
  next
    case False
    with "1.prems" obtain code1 rest1 where a1: "class_atom cs = Inr (code1, rest1)"
      unfolding eq by (auto split: sum.splits)
    from class_atom_shorter[OF a1] have l1: "length rest1 < length cs" .
    show ?thesis
    proof (cases "rest1 \<noteq> [] \<and> hd rest1 = CHR ''-''")
      case dash: True
      show ?thesis
      proof (cases "tl rest1 = [] \<or> hd (tl rest1) = CHR '']''")
        case True
        with "1.prems" False a1 dash have "rest = tl (tl rest1)"
          unfolding eq by (auto split: if_splits)
        with l1 show ?thesis by (cases rest1) auto
      next
        case nt: False
        with "1.prems" False a1 dash obtain code2 rest2 lo hi
          where a2: "class_atom (tl rest1) = Inr (code2, rest2)"
            and c: "code1 = Ch lo" "code2 = Ch hi" "\<not> ord hi < ord lo"
            and r: "parse_class rest2 (CRange lo hi # acc) = Inr (items, rest)"
          unfolding eq by (auto split: if_splits sum.splits citem.splits)
        from class_atom_shorter[OF a2] l1 have l2: "length rest2 < length cs"
          by (cases rest1) auto
        from "1.IH"(1)[OF _ _ a1 refl dash _ _ a2 refl refl c(1) c(2) c(3) r] False nt
        have "length rest < length rest2" by auto
        with l2 show ?thesis by simp
      qed
    next
      case nodash: False
      with "1.prems" False a1 have r: "parse_class rest1 (code1 # acc) = Inr (items, rest)"
        unfolding eq by (auto split: if_splits)
      from "1.IH"(2)[OF _ _ a1 refl nodash r] False have "length rest < length rest1" by auto
      with l1 show ?thesis by simp
    qed
  qed
qed

text \<open>
  The parser of \<^verbatim>\<open>sre_parse.py\<close>, with the recursion on groups unrolled into a stack.
  \<open>items\<close> are the pieces of the sequence being read and \<open>alts\<close> the alternatives of the
  current group finished so far (both latest first); a frame of the stack keeps the same
  for an enclosing group, with the number of the group that was opened. \<open>n\<close> counts the
  capturing groups, numbered by their opening parenthesis.
\<close>

type_synonym frame = "nat option \<times> regex list \<times> regex list"

fun mk_seq :: "regex list \<Rightarrow> regex" where
  "mk_seq [] = Empty"
| "mk_seq [r] = r"
| "mk_seq (r # rs) = Seq (mk_seq rs) r"

definition mk_branch :: "regex list \<Rightarrow> regex list \<Rightarrow> regex" where
  "mk_branch alts items = fold Alt alts (mk_seq items)"

fun is_at :: "regex \<Rightarrow> bool" where
  "is_at Bol = True"
| "is_at Eol = True"
| "is_at r = False"

fun is_repeat :: "regex \<Rightarrow> bool" where
  "is_repeat (Star a) = True"
| "is_repeat (Plus a) = True"
| "is_repeat (Opt a) = True"
| "is_repeat r = False"

fun nullable :: "regex \<Rightarrow> bool" where
  "nullable Empty = True"
| "nullable Bol = True"
| "nullable Eol = True"
| "nullable (Seq a b) = (nullable a \<and> nullable b)"
| "nullable (Alt a b) = (nullable a \<or> nullable b)"
| "nullable (Star a) = True"
| "nullable (Plus a) = nullable a"
| "nullable (Opt a) = True"
| "nullable (Group g a) = nullable a"
| "nullable r = False"

text \<open>A quantifier applies to the last item read: \<^verbatim>\<open>nothing to repeat\<close> when there is
  none or it is an anchor, \<^verbatim>\<open>multiple repeat\<close> when it is a repetition itself.\<close>

definition repeat :: "char \<Rightarrow> regex list \<Rightarrow> error + regex list" where
  "repeat q items =
     (case items of
        [] \<Rightarrow> Inl PatternError
      | r # rs \<Rightarrow>
          if is_at r then Inl PatternError
          else if is_repeat r then Inl PatternError
          else if nullable r then Inl NotModelled
          else Inr ((if q = CHR ''*'' then Star r else if q = CHR ''+'' then Plus r else Opt r)
                    # rs))"

function parse :: "string \<Rightarrow> regex list \<Rightarrow> regex list \<Rightarrow> frame list \<Rightarrow> nat
                     \<Rightarrow> error + (regex \<times> nat)" where
  "parse [] alts items stack n =
     (if stack = [] then Inr (mk_branch alts items, n) else Inl PatternError)"
| "parse (c # cs) alts items stack n =
     (if c = CHR ''['' then
        (case (if cs \<noteq> [] \<and> hd cs = CHR ''^'' then parse_class (tl cs) []
               else parse_class cs []) of
           Inl e \<Rightarrow> Inl e
         | Inr (members, rest) \<Rightarrow>
             parse rest alts (In (cs \<noteq> [] \<and> hd cs = CHR ''^'') members # items) stack n)
      else if c = CHR ''*'' \<or> c = CHR ''+'' \<or> c = CHR ''?'' then
        (case repeat c items of
           Inl e \<Rightarrow> Inl e
         | Inr items' \<Rightarrow>
             if cs \<noteq> [] \<and> hd cs = CHR ''?'' then Inl NotModelled
             else parse cs alts items' stack n)
      else if c = CHR ''{'' then Inl NotModelled
      else if c = CHR ''.'' then parse cs alts (AnyChar # items) stack n
      else if c = CHR ''('' then
        (if cs \<noteq> [] \<and> hd cs = CHR ''?'' then
           (if tl cs \<noteq> [] \<and> hd (tl cs) = CHR '':'' then
              parse (tl (tl cs)) [] [] ((None, alts, items) # stack) n
            else Inl NotModelled)
         else parse cs [] [] ((Some (Suc n), alts, items) # stack) (Suc n))
      else if c = CHR '')'' then
        (case stack of
           [] \<Rightarrow> Inl PatternError
         | (g, palts, pitems) # stack' \<Rightarrow>
             parse cs palts (Group g (mk_branch alts items) # pitems) stack' n)
      else if c = CHR ''|'' then parse cs (mk_seq items # alts) [] stack n
      else if c = CHR ''^'' then parse cs alts (Bol # items) stack n
      else if c = CHR ''$'' then parse cs alts (Eol # items) stack n
      else if c = BSL then
        (case cs of
           [] \<Rightarrow> Inl PatternError
         | d # cs' \<Rightarrow>
             (case escape d of
                Inl e \<Rightarrow> Inl e
              | Inr r \<Rightarrow> parse cs' alts (r # items) stack n))
      else parse cs alts (Lit c # items) stack n)"
  by pat_completeness auto
termination
proof (relation "measure (\<lambda>(cs, alts, items, stack, n). length cs)")
  show "wf (measure (\<lambda>(cs, alts, items, stack, n). length cs))" by simp
next
  fix c :: char and cs :: string and alts items :: "regex list" and stack :: "frame list"
    and n :: nat and x members rest
  assume "(if cs \<noteq> [] \<and> hd cs = CHR ''^'' then parse_class (tl cs) [] else parse_class cs [])
            = Inr x" "(members, rest) = x"
  then have "length rest < length (tl cs) \<or> length rest < length cs"
    using parse_class_shorter[of "tl cs" "[]" members rest]
      parse_class_shorter[of cs "[]" members rest]
    by (auto split: if_splits)
  then have "length rest < Suc (length cs)" by auto
  then show "((rest, alts, In (cs \<noteq> [] \<and> hd cs = CHR ''^'') members # items, stack, n),
              (c # cs, alts, items, stack, n))
             \<in> measure (\<lambda>(cs, alts, items, stack, n). length cs)"
    by simp
qed auto

text \<open>\<^verbatim>\<open>re.compile(pattern, flags)\<close>. The interpreter refuses a pattern with a hundred
  groups or more with an exception of another kind.\<close>

definition re_compile :: "string \<Rightarrow> nat \<Rightarrow> error + re_pattern" where
  "re_compile pat fl =
     (if has_flag fl re_UNICODE then Inl NotModelled
      else (case parse pat [] [] [] 0 of
              Inl e \<Rightarrow> Inl e
            | Inr (r, n) \<Rightarrow>
                if 100 \<le> n then Inl NotModelled
                else Inr \<lparr>re_code = r, re_groups = n, re_flags = fl\<rparr>))"

section \<open>The tokenizer: \<^verbatim>\<open>lib/nltk/tokenize/regexp.py\<close>\<close>

subsection \<open>\<^verbatim>\<open>RegexpTokenizer\<close>\<close>

text \<open>
  The object keeps the constructor's arguments and the compiled pattern, \<^verbatim>\<open>None\<close> until
  the first call. The methods change the object, so each returns it next to its result.
  The argument \<^verbatim>\<open>pattern\<close> is a string, or an object with an attribute \<^verbatim>\<open>pattern\<close>
  (a compiled pattern, which also carries the flags it was compiled with).
\<close>

datatype pattern_arg = PatternStr string | PatternObj string nat

record tokenizer =
  tk_pattern :: string
  tk_gaps :: bool
  tk_discard_empty :: bool
  tk_flags :: nat
  tk_regexp :: "re_pattern option"

text \<open>The default of the argument \<^verbatim>\<open>flags\<close>, \<^verbatim>\<open>re.UNICODE | re.MULTILINE | re.DOTALL\<close>
  (three distinct bits, so the sum).\<close>

definition default_flags :: nat where
  "default_flags = re_UNICODE + re_MULTILINE + re_DOTALL"

definition RegexpTokenizer :: "pattern_arg \<Rightarrow> bool \<Rightarrow> bool \<Rightarrow> nat \<Rightarrow> tokenizer" where
  "RegexpTokenizer arg gaps discard_empty flags =
     \<lparr>tk_pattern = (case arg of PatternStr p \<Rightarrow> p | PatternObj p f \<Rightarrow> p),
      tk_gaps = gaps,
      tk_discard_empty = discard_empty,
      tk_flags = flags,
      tk_regexp = None\<rparr>"

text \<open>\<^verbatim>\<open>_check_regexp\<close> compiles the pattern on first use, with \<^verbatim>\<open>re.compile(self._pattern)\<close>:
  the flags of the tokenizer are not passed on. The result is the object with the
  compiled pattern stored, and that pattern.\<close>

definition check_regexp :: "tokenizer \<Rightarrow> error + (tokenizer \<times> re_pattern)" where
  "check_regexp tk =
     (case tk_regexp tk of
        None \<Rightarrow>
          (case re_compile (tk_pattern tk) 0 of
             Inl e \<Rightarrow> Inl e
           | Inr r \<Rightarrow> Inr (tk\<lparr>tk_regexp := Some r\<rparr>, r))
      | Some r \<Rightarrow> Inr (tk, r))"

text \<open>The truth value of a list element, as the comprehension \<^verbatim>\<open>if tok\<close> tests it.\<close>

fun truthy :: "pyval \<Rightarrow> bool" where
  "truthy (Str s) = (s \<noteq> [])"
| "truthy PyNone = False"
| "truthy (Tuple xs) = (xs \<noteq> [])"

definition tokenize :: "tokenizer \<Rightarrow> string \<Rightarrow> (error + pyval list) \<times> tokenizer" where
  "tokenize tk text =
     (case check_regexp tk of
        Inl e \<Rightarrow> (Inl e, tk)
      | Inr (tk', r) \<Rightarrow>
          (if tk_gaps tk' then
             (if tk_discard_empty tk' then Inr (filter truthy (re_split r text))
              else Inr (re_split r text))
           else Inr (findall r text),
           tk'))"

text \<open>
  Modelled from the spec: the loop of \<^verbatim>\<open>regexp_span_tokenize\<close>, a function of
  \<^verbatim>\<open>nltk/tokenize/util.py\<close> that \<^verbatim>\<open>regexp.py\<close> imports; the module is missing from the
  code verified here. The specification (section 4.3, GAP mode): keep a cursor
  \<^verbatim>\<open>last_end\<close>, 0 at first; for each separator match \<^verbatim>\<open>[m_start, m_end)\<close> in turn yield
  the span \<^verbatim>\<open>[last_end, m_start)\<close> and set \<^verbatim>\<open>last_end = m_end\<close>; after the last match
  yield \<^verbatim>\<open>[last_end, length(text))\<close>.
\<close>

fun span_loop :: "match list \<Rightarrow> nat \<Rightarrow> nat \<Rightarrow> (nat \<times> nat) list" where
  "span_loop [] last_end n = [(last_end, n)]"
| "span_loop (m # ms) last_end n = (last_end, m_start m) # span_loop ms (m_end m) n"

text \<open>Modelled from the spec: \<^verbatim>\<open>regexp_span_tokenize(text, regexp)\<close>, missing with its
  module; the loop above over the separator matches that \<^verbatim>\<open>finditer\<close> finds.\<close>

definition regexp_span_tokenize :: "string \<Rightarrow> re_pattern \<Rightarrow> (nat \<times> nat) list" where
  "regexp_span_tokenize s r = span_loop (finditer r s) 0 (length s)"

text \<open>\<^verbatim>\<open>span_tokenize\<close> is a generator; the model returns the list of the spans it yields.\<close>

definition span_tokenize :: "tokenizer \<Rightarrow> string \<Rightarrow> (error + (nat \<times> nat) list) \<times> tokenizer" where
  "span_tokenize tk text =
     (case check_regexp tk of
        Inl e \<Rightarrow> (Inl e, tk)
      | Inr (tk', r) \<Rightarrow>
          (if tk_gaps tk' then
             Inr (filter (\<lambda>(left, right). \<not> (tk_discard_empty tk' \<and> left = right))
                    (regexp_span_tokenize text r))
           else Inr (map (\<lambda>m. (m_start m, m_end m)) (finditer r text)),
           tk'))"

subsection \<open>The predefined tokenizers and the function interface\<close>

definition WhitespaceTokenizer :: tokenizer where
  "WhitespaceTokenizer = RegexpTokenizer (PatternStr (BSL # ''s+'')) True True default_flags"

definition BlanklineTokenizer :: tokenizer where
  "BlanklineTokenizer =
     RegexpTokenizer
       (PatternStr (BSL # ''s*'' @ BSL # ''n'' @ BSL # ''s*'' @ BSL # ''n'' @ BSL # ''s*''))
       True True default_flags"

definition WordPunctTokenizer :: tokenizer where
  "WordPunctTokenizer =
     RegexpTokenizer (PatternStr (BSL # ''w+|[^'' @ BSL # ''w'' @ BSL # ''s]+''))
       False True default_flags"

definition regexp_tokenize :: "string \<Rightarrow> pattern_arg \<Rightarrow> bool \<Rightarrow> bool \<Rightarrow> nat
                                \<Rightarrow> error + pyval list" where
  "regexp_tokenize text pattern gaps discard_empty flags =
     fst (tokenize (RegexpTokenizer pattern gaps discard_empty flags) text)"

definition blankline_tokenize :: "string \<Rightarrow> error + pyval list" where
  "blankline_tokenize text = fst (tokenize BlanklineTokenizer text)"

definition wordpunct_tokenize :: "string \<Rightarrow> error + pyval list" where
  "wordpunct_tokenize text = fst (tokenize WordPunctTokenizer text)"

subsection \<open>Sequences of calls on one tokenizer\<close>

text \<open>A caller keeps one tokenizer object and calls its methods in turn; each call sees the
  object as the call before left it. \<open>run_calls\<close> collects what the calls return or raise.\<close>

datatype call = Tokenize string | SpanTokenize string

datatype outcome = Tokens "pyval list" | Spans "(nat \<times> nat) list" | Raised error

fun do_call :: "tokenizer \<Rightarrow> call \<Rightarrow> outcome \<times> tokenizer" where
  "do_call tk (Tokenize text) =
     (case tokenize tk text of
        (Inl e, tk') \<Rightarrow> (Raised e, tk')
      | (Inr toks, tk') \<Rightarrow> (Tokens toks, tk'))"
| "do_call tk (SpanTokenize text) =
     (case span_tokenize tk text of
        (Inl e, tk') \<Rightarrow> (Raised e, tk')
      | (Inr spans, tk') \<Rightarrow> (Spans spans, tk'))"

fun run_calls :: "tokenizer \<Rightarrow> call list \<Rightarrow> outcome list" where
  "run_calls tk [] = []"
| "run_calls tk (c # cs) = (case do_call tk c of (out, tk') \<Rightarrow> out # run_calls tk' cs)"

text \<open>The substrings \<^verbatim>\<open>[text[s:e] for (s, e) in spans]\<close>.\<close>

definition slices :: "string \<Rightarrow> (nat \<times> nat) list \<Rightarrow> pyval list" where
  "slices text spans = map (\<lambda>(a, b). Str (slice text a b)) spans"

text \<open>\<^verbatim>\<open>sep.join(strings)\<close>.\<close>

fun join :: "string \<Rightarrow> string list \<Rightarrow> string" where
  "join sep [] = []"
| "join sep [x] = x"
| "join sep (x # y # ys) = x @ sep @ join sep (y # ys)"

subsection \<open>The words of a text\<close>

text \<open>
  A direct description of what the whitespace tokenizer returns, used to state and prove
  its properties: the words of a text are its maximal runs of characters that are not
  whitespace, read off in one pass with the word being read in \<open>cur\<close>.
\<close>

fun words_acc :: "string \<Rightarrow> string \<Rightarrow> string list" where
  "words_acc [] cur = (if cur = [] then [] else [cur])"
| "words_acc (c # cs) cur =
     (if is_space c then (if cur = [] then words_acc cs [] else cur # words_acc cs [])
      else words_acc cs (cur @ [c]))"

definition wordlike :: "string \<Rightarrow> bool" where
  "wordlike w = (w \<noteq> [] \<and> (\<forall>c \<in> set w. \<not> is_space c))"

text \<open>The pattern \<^verbatim>\<open>\s+\<close> as \<^verbatim>\<open>re.compile\<close> returns it.\<close>

definition ws_pattern :: re_pattern where
  "ws_pattern = \<lparr>re_code = Plus (In False [Cat Space]), re_groups = 0, re_flags = 0\<rparr>"

section \<open>Properties\<close>

subsection \<open>Worked examples\<close>

text \<open>
  C4. In GAP mode with the pattern \<^verbatim>\<open>\s+\<close> (one or more whitespace characters), the text
  \<^verbatim>\<open>" a  b "\<close> is tokenized into \<^verbatim>\<open>["a", "b"]\<close> when \<^verbatim>\<open>discard_empty\<close> is true, and
  into \<^verbatim>\<open>["", "a", "b", ""]\<close> when it is false.
\<close>

theorem gap_whitespace_example:
  "fst (tokenize (RegexpTokenizer (PatternStr (BSL # ''s+'')) True True default_flags) '' a  b '')
     = Inr [Str ''a'', Str ''b'']
   \<and> fst (tokenize (RegexpTokenizer (PatternStr (BSL # ''s+'')) True False default_flags) '' a  b '')
     = Inr [Str [], Str ''a'', Str ''b'', Str []]"
  by code_simp

text \<open>
  C9. The word/punctuation tokenizer (TOKEN mode, pattern \<^verbatim>\<open>\w+|[^\w\s]+\<close>) tokenizes
  \<^verbatim>\<open>"Good $3.88"\<close> into \<^verbatim>\<open>["Good", "$", "3", ".", "88"]\<close>, and the blank-line tokenizer
  (GAP mode, \<^verbatim>\<open>discard_empty\<close> true) tokenizes the two lines \<^verbatim>\<open>"line one"\<close> and
  \<^verbatim>\<open>"line two"\<close> separated by an empty line into those two lines.
\<close>

theorem preset_examples:
  "fst (tokenize WordPunctTokenizer ''Good $3.88'')
     = Inr [Str ''Good'', Str ''$'', Str ''3'', Str ''.'', Str ''88'']
   \<and> fst (tokenize BlanklineTokenizer ''line one\<newline>\<newline>line two'')
     = Inr [Str ''line one'', Str ''line two'']"
  by code_simp

subsection \<open>The constructor\<close>

text \<open>
  C10. A tokenizer built from an object with an attribute \<^verbatim>\<open>pattern\<close> is the tokenizer
  built from the string in that attribute: the same stored pattern, the same compiled
  pattern, the same results of \<^verbatim>\<open>tokenize\<close> and \<^verbatim>\<open>span_tokenize\<close>, whatever flags the
  object was compiled with.
\<close>

theorem pattern_object_is_its_string:
  "tk_pattern (RegexpTokenizer (PatternObj p f) gaps discard_empty flags) = p
   \<and> RegexpTokenizer (PatternObj p f) gaps discard_empty flags
       = RegexpTokenizer (PatternStr p) gaps discard_empty flags
   \<and> check_regexp (RegexpTokenizer (PatternObj p f) gaps discard_empty flags)
       = check_regexp (RegexpTokenizer (PatternStr p) gaps discard_empty flags)
   \<and> tokenize (RegexpTokenizer (PatternObj p f) gaps discard_empty flags) text
       = tokenize (RegexpTokenizer (PatternStr p) gaps discard_empty flags) text
   \<and> span_tokenize (RegexpTokenizer (PatternObj p f) gaps discard_empty flags) text
       = span_tokenize (RegexpTokenizer (PatternStr p) gaps discard_empty flags) text"
  by (simp add: RegexpTokenizer_def)

subsection \<open>Flags and capturing groups\<close>

text \<open>
  C2. The flags given to the constructor, by default \<^verbatim>\<open>UNICODE | MULTILINE | DOTALL\<close>,
  are documented as the flags the pattern is compiled with. \<^verbatim>\<open>_check_regexp\<close> compiles
  without them: with the default flags the pattern \<^verbatim>\<open>.\<close> does not match a newline, where
  the same pattern compiled with \<^verbatim>\<open>DOTALL\<close> does, and the result of \<^verbatim>\<open>tokenize\<close> is the
  same for any two values of the flags.
\<close>

theorem flags_not_passed_to_compile:
  "fst (tokenize (RegexpTokenizer (PatternStr ''.'') False True default_flags) ''a\<newline>b'')
     = Inr [Str ''a'', Str ''b'']
   \<and> map_sum id (\<lambda>r. findall r ''a\<newline>b'') (re_compile ''.'' re_DOTALL)
     = Inr [Str ''a'', Str ''\<newline>'', Str ''b'']
   \<and> fst (tokenize (RegexpTokenizer arg gaps discard_empty flags1) text)
     = fst (tokenize (RegexpTokenizer arg gaps discard_empty flags2) text)"
proof -
  have 1: "fst (tokenize (RegexpTokenizer (PatternStr ''.'') False True default_flags) ''a\<newline>b'')
     = Inr [Str ''a'', Str ''b'']"
    by code_simp
  have 2: "map_sum id (\<lambda>r. findall r ''a\<newline>b'') (re_compile ''.'' re_DOTALL)
     = Inr [Str ''a'', Str ''\<newline>'', Str ''b'']"
    by code_simp
  have 3: "fst (tokenize (RegexpTokenizer arg gaps discard_empty flags1) text)
     = fst (tokenize (RegexpTokenizer arg gaps discard_empty flags2) text)"
    by (cases "re_compile (case arg of PatternStr p \<Rightarrow> p | PatternObj p f \<Rightarrow> p) 0")
       (simp_all add: tokenize_def check_regexp_def RegexpTokenizer_def)
  from 1 2 3 show ?thesis by blast
qed

text \<open>
  C3. In TOKEN mode the tokens are documented to be the matched substrings, also for a
  pattern with capturing parentheses. \<^verbatim>\<open>findall\<close> returns the text of the group instead
  of the match when the pattern has one group, and a tuple when it has several: for the
  pattern \<^verbatim>\<open>(a)b\<close> and the text \<^verbatim>\<open>"ab"\<close> the only match is \<^verbatim>\<open>"ab"\<close>, at \<^verbatim>\<open>(0, 2)\<close>, and
  the token returned is \<^verbatim>\<open>"a"\<close>.
\<close>

theorem token_mode_returns_group:
  "fst (tokenize (RegexpTokenizer (PatternStr ''(a)b'') False True default_flags) ''ab'')
     = Inr [Str ''a'']
   \<and> fst (span_tokenize (RegexpTokenizer (PatternStr ''(a)b'') False True default_flags) ''ab'')
     = Inr [(0, 2)]
   \<and> fst (tokenize (RegexpTokenizer (PatternStr ''(a)(b)'') False True default_flags) ''ab'')
     = Inr [Tuple [''a'', ''b'']]"
  by code_simp

subsection \<open>Calls on a tokenizer\<close>

lemma check_regexp_state:
  "check_regexp tk = Inr (tk', r) \<Longrightarrow> tk' = tk\<lparr>tk_regexp := Some r\<rparr>"
  by (auto simp: check_regexp_def split: option.splits sum.splits)

lemma check_regexp_again:
  "check_regexp tk = Inr (tk', r) \<Longrightarrow> check_regexp tk' = Inr (tk', r)"
  by (auto simp: check_regexp_def split: option.splits sum.splits)

lemma check_regexp_fails:
  "tk_regexp tk = None \<Longrightarrow> re_compile (tk_pattern tk) 0 = Inl e \<Longrightarrow> check_regexp tk = Inl e"
  by (simp add: check_regexp_def)

lemma do_call_fails:
  assumes "check_regexp tk = Inl e"
  shows "do_call tk c = (Raised e, tk)"
  using assms by (cases c) (simp_all add: tokenize_def span_tokenize_def)

lemma run_calls_fail:
  assumes "check_regexp tk = Inl e"
  shows "run_calls tk calls = replicate (length calls) (Raised e)"
  using assms by (induction calls) (simp_all add: do_call_fails)

text \<open>
  C7. A pattern that \<^verbatim>\<open>re.compile\<close> refuses is not refused by the constructor, which
  compiles nothing; it is refused at the first use, by \<^verbatim>\<open>tokenize\<close> and by
  \<^verbatim>\<open>span_tokenize\<close> alike, with the error of \<^verbatim>\<open>re.compile\<close>. The failed call leaves the
  object as it was, so every later call on it fails in the same way.
\<close>

theorem invalid_pattern_fails_on_every_use:
  assumes "re_compile p 0 = Inl PatternError"
  shows "tk_regexp (RegexpTokenizer (PatternStr p) gaps discard_empty flags) = None
         \<and> tokenize (RegexpTokenizer (PatternStr p) gaps discard_empty flags) text
             = (Inl PatternError, RegexpTokenizer (PatternStr p) gaps discard_empty flags)
         \<and> span_tokenize (RegexpTokenizer (PatternStr p) gaps discard_empty flags) text
             = (Inl PatternError, RegexpTokenizer (PatternStr p) gaps discard_empty flags)
         \<and> run_calls (RegexpTokenizer (PatternStr p) gaps discard_empty flags) calls
             = replicate (length calls) (Raised PatternError)"
proof -
  let ?tk = "RegexpTokenizer (PatternStr p) gaps discard_empty flags"
  have none: "tk_regexp ?tk = None" and pat: "tk_pattern ?tk = p"
    by (simp_all add: RegexpTokenizer_def)
  from check_regexp_fails[OF none] pat assms have f: "check_regexp ?tk = Inl PatternError"
    by simp
  from f have "tokenize ?tk text = (Inl PatternError, ?tk)"
    and "span_tokenize ?tk text = (Inl PatternError, ?tk)"
    by (simp_all add: tokenize_def span_tokenize_def)
  with none run_calls_fail[OF f] show ?thesis by simp
qed

theorem invalid_pattern_fails_on_every_use_witness:
  "run_calls (RegexpTokenizer (PatternStr ''(a'') False True default_flags)
     [Tokenize ''ab'', SpanTokenize ''ab'', Tokenize ''ab'']
   = [Raised PatternError, Raised PatternError, Raised PatternError]"
proof -
  have h: "re_compile ''(a'' 0 = Inl PatternError" by code_simp
  from invalid_pattern_fails_on_every_use[OF h, of False True default_flags "''ab''"
      "[Tokenize ''ab'', SpanTokenize ''ab'', Tokenize ''ab'']"]
  show ?thesis by simp
qed

subsection \<open>Results on a pattern that compiles\<close>

lemma tokenize_ok:
  assumes "check_regexp tk = Inr (tk', r)"
  shows "tokenize tk text =
           (Inr (if tk_gaps tk then
                   (if tk_discard_empty tk then filter truthy (re_split r text)
                    else re_split r text)
                 else findall r text), tk')"
  using assms check_regexp_state[OF assms] by (simp add: tokenize_def)

lemma span_tokenize_ok:
  assumes "check_regexp tk = Inr (tk', r)"
  shows "span_tokenize tk text =
           (Inr (if tk_gaps tk then
                   filter (\<lambda>(left, right). \<not> (tk_discard_empty tk \<and> left = right))
                     (regexp_span_tokenize text r)
                 else map (\<lambda>m. (m_start m, m_end m)) (finditer r text)), tk')"
  using assms check_regexp_state[OF assms] by (simp add: span_tokenize_def)

lemma search_past_end: "length s < pos \<Longrightarrow> search p s pos = None"
  by (simp add: search.simps)

lemma search_empty_text:
  "search p [] 0 = match_at p [] 0"
  by (simp add: search.simps[of p "[]" 0] search_past_end split: option.splits)

lemma match_at_empty_text:
  assumes "match_at p [] 0 = Some m"
  shows "m_start m = 0 \<and> m_end m = 0"
  using match_at_bounds[OF assms] by simp

lemma re_split_empty_text: "re_split p [] = [Str []]"
proof (cases "match_at p [] 0")
  case None
  then show ?thesis
    by (simp add: re_split_def split_from.simps[of p "[]" 0 0] search_empty_text slice_def)
next
  case (Some m)
  with match_at_empty_text[OF Some] show ?thesis
    by (simp add: re_split_def split_from.simps[of p "[]" 0 0] search_empty_text slice_def)
qed

lemma findall_empty_text:
  "findall p [] = (case match_at p [] 0 of None \<Rightarrow> [] | Some m \<Rightarrow> [findall_item p [] m])"
proof (cases "match_at p [] 0")
  case None
  then show ?thesis
    by (simp add: findall_def findall_from.simps[of p "[]" 0] search_empty_text)
next
  case (Some m)
  from match_at_empty_text[OF Some] have "next_start m = Suc 0"
    by (simp add: next_start_def)
  with Some show ?thesis
    by (simp add: findall_def findall_from.simps[of p "[]" 0] search_empty_text
        findall_from.simps[of p "[]" "Suc 0"])
qed

text \<open>
  C5 (as amended). On a tokenizer whose pattern compiles, \<^verbatim>\<open>tokenize\<close> returns a list for
  every text. On the empty text the list is empty in GAP mode when \<^verbatim>\<open>discard_empty\<close> is
  true, and in TOKEN mode when the pattern does not match the empty string; it is the
  one-element list \<^verbatim>\<open>[""]\<close> in GAP mode when \<^verbatim>\<open>discard_empty\<close> is false. Nothing is
  stated for TOKEN mode with a pattern that matches the empty string.
\<close>

theorem tokenize_never_fails:
  assumes "check_regexp tk = Inr (tk', r)"
  shows "(\<exists>toks. fst (tokenize tk text) = Inr toks)
         \<and> (tk_gaps tk \<and> tk_discard_empty tk \<longrightarrow> fst (tokenize tk []) = Inr [])
         \<and> (tk_gaps tk \<and> \<not> tk_discard_empty tk \<longrightarrow> fst (tokenize tk []) = Inr [Str []])
         \<and> (\<not> tk_gaps tk \<and> match_at r [] 0 = None \<longrightarrow> fst (tokenize tk []) = Inr [])"
proof -
  have 1: "\<exists>toks. fst (tokenize tk text) = Inr toks"
    by (simp add: tokenize_ok[OF assms])
  have 2: "tk_gaps tk \<and> tk_discard_empty tk \<longrightarrow> fst (tokenize tk []) = Inr []"
    by (simp add: tokenize_ok[OF assms] re_split_empty_text)
  have 3: "tk_gaps tk \<and> \<not> tk_discard_empty tk \<longrightarrow> fst (tokenize tk []) = Inr [Str []]"
    by (simp add: tokenize_ok[OF assms] re_split_empty_text)
  have 4: "\<not> tk_gaps tk \<and> match_at r [] 0 = None \<longrightarrow> fst (tokenize tk []) = Inr []"
    by (simp add: tokenize_ok[OF assms] findall_empty_text)
  from 1 2 3 4 show ?thesis by blast
qed

theorem tokenize_never_fails_witness:
  "fst (tokenize WhitespaceTokenizer '' a '') = Inr [Str ''a'']
   \<and> fst (tokenize WhitespaceTokenizer []) = Inr []
   \<and> fst (tokenize (RegexpTokenizer (PatternStr (BSL # ''s+'')) True False default_flags) [])
       = Inr [Str []]
   \<and> fst (tokenize WordPunctTokenizer []) = Inr []"
proof -
  define ws where "ws = \<lparr>re_code = Plus (In False [Cat Space]), re_groups = 0, re_flags = 0\<rparr>"
  define wp where "wp = \<lparr>re_code = Alt (Plus (In False [Cat Word]))
                                       (Plus (In True [Cat Word, Cat Space])),
                          re_groups = 0, re_flags = 0\<rparr>"
  let ?gap = "RegexpTokenizer (PatternStr (BSL # ''s+'')) True False default_flags"
  have c1: "check_regexp WhitespaceTokenizer = Inr (WhitespaceTokenizer\<lparr>tk_regexp := Some ws\<rparr>, ws)"
    unfolding ws_def by code_simp
  have c2: "check_regexp ?gap = Inr (?gap\<lparr>tk_regexp := Some ws\<rparr>, ws)"
    unfolding ws_def by code_simp
  have c3: "check_regexp WordPunctTokenizer = Inr (WordPunctTokenizer\<lparr>tk_regexp := Some wp\<rparr>, wp)"
    unfolding wp_def by code_simp
  have g1: "tk_gaps WhitespaceTokenizer \<and> tk_discard_empty WhitespaceTokenizer"
    by (simp add: WhitespaceTokenizer_def RegexpTokenizer_def)
  have g2: "tk_gaps ?gap \<and> \<not> tk_discard_empty ?gap"
    by (simp add: RegexpTokenizer_def)
  have g3: "\<not> tk_gaps WordPunctTokenizer \<and> match_at wp [] 0 = None"
    unfolding wp_def by code_simp
  have e: "fst (tokenize WhitespaceTokenizer '' a '') = Inr [Str ''a'']"
    by code_simp
  from tokenize_never_fails[OF c1, of "'' a ''"] g1
  have r1: "fst (tokenize WhitespaceTokenizer []) = Inr []" by blast
  from tokenize_never_fails[OF c2, of "[]"] g2
  have r2: "fst (tokenize ?gap []) = Inr [Str []]" by blast
  from tokenize_never_fails[OF c3, of "[]"] g3
  have r3: "fst (tokenize WordPunctTokenizer []) = Inr []" by blast
  from e r1 r2 r3 show ?thesis by blast
qed

text \<open>C5 as stated fails: in GAP mode with \<^verbatim>\<open>discard_empty\<close> false the empty text is tokenized
  into \<^verbatim>\<open>[""]\<close>, the one piece \<^verbatim>\<open>re.split\<close> returns when there is no separator.\<close>

theorem empty_text_counterexample:
  "fst (tokenize (RegexpTokenizer (PatternStr (BSL # ''s+'')) True False default_flags) [])
     = Inr [Str []]
   \<and> fst (tokenize (RegexpTokenizer (PatternStr (BSL # ''s+'')) True False default_flags) [])
     \<noteq> Inr []"
  by code_simp

subsection \<open>Termination of the scan\<close>

lemma next_start_advances:
  assumes "search p s pos = Some m"
  shows "pos < next_start m" and "pos \<le> length s" and "next_start m \<le> Suc (length s)"
  using search_bounds[OF assms] by (auto simp: next_start_def)

lemma finditer_from_length:
  "length (finditer_from p s pos) \<le> Suc (length s) - pos"
proof (induction p s pos rule: finditer_from.induct)
  case (1 p s start)
  show ?case
  proof (cases "search p s start")
    case None
    then show ?thesis by (simp add: finditer_from.simps[of p s start])
  next
    case (Some m)
    from "1.IH"[OF Some] next_start_advances[OF Some] Some show ?thesis
      by (simp add: finditer_from.simps[of p s start])
  qed
qed

text \<open>
  C6. For every pattern that compiles and every text, \<^verbatim>\<open>tokenize\<close> and \<^verbatim>\<open>span_tokenize\<close>
  return; the scan finds at most one match for each position of the text and one at its
  end. After an empty match found when searching from \<open>pos\<close>, each of the three loops
  (\<^verbatim>\<open>finditer\<close>, \<^verbatim>\<open>findall\<close> in TOKEN mode, \<^verbatim>\<open>split\<close> in GAP mode) searches next from
  the position after the match, which is beyond \<open>pos\<close>.
\<close>

theorem scan_terminates_and_advances:
  assumes "check_regexp tk = Inr (tk', r)"
  shows "(\<exists>toks. tokenize tk text = (Inr toks, tk'))
         \<and> (\<exists>spans. span_tokenize tk text = (Inr spans, tk'))
         \<and> length (finditer r text) \<le> Suc (length text)
         \<and> (\<forall>pos m. search r text pos = Some m \<and> m_start m = m_end m \<longrightarrow>
                pos < Suc (m_end m)
                \<and> finditer_from r text pos = m # finditer_from r text (Suc (m_end m))
                \<and> findall_from r text pos
                    = findall_item r text m # findall_from r text (Suc (m_end m))
                \<and> (\<forall>lastp. lastp \<noteq> length text \<longrightarrow>
                      split_from r text pos lastp = split_from r text (Suc (m_end m)) lastp))"
proof -
  have 1: "\<exists>toks. tokenize tk text = (Inr toks, tk')"
    by (simp add: tokenize_ok[OF assms])
  have 2: "\<exists>spans. span_tokenize tk text = (Inr spans, tk')"
    by (simp add: span_tokenize_ok[OF assms])
  have 3: "length (finditer r text) \<le> Suc (length text)"
    using finditer_from_length[of r "text" 0] by (simp add: finditer_def)
  have 4: "pos < Suc (m_end m)
           \<and> finditer_from r text pos = m # finditer_from r text (Suc (m_end m))
           \<and> findall_from r text pos = findall_item r text m # findall_from r text (Suc (m_end m))
           \<and> (\<forall>lastp. lastp \<noteq> length text \<longrightarrow>
                 split_from r text pos lastp = split_from r text (Suc (m_end m)) lastp)"
    if s: "search r text pos = Some m" and e: "m_start m = m_end m" for pos m
  proof -
    from e have n: "next_start m = Suc (m_end m)" by (simp add: next_start_def)
    from next_start_advances[OF s] n have a: "pos < Suc (m_end m)" "\<not> length text < pos"
      by simp_all
    from s n have b: "finditer_from r text pos = m # finditer_from r text (Suc (m_end m))"
      by (simp add: finditer_from.simps[of r "text" pos])
    from s n a have c: "findall_from r text pos
                         = findall_item r text m # findall_from r text (Suc (m_end m))"
      by (simp add: findall_from.simps[of r "text" pos])
    from s e have d: "lastp \<noteq> length text \<longrightarrow>
            split_from r text pos lastp = split_from r text (Suc (m_end m)) lastp" for lastp
      by (simp add: split_from.simps[of r "text" pos lastp])
    from a b c d show ?thesis by blast
  qed
  from 1 2 3 4 show ?thesis by blast
qed

theorem scan_terminates_and_advances_witness:
  "search \<lparr>re_code = Star (Lit (CHR ''x'')), re_groups = 0, re_flags = 0\<rparr> ''ab'' 0
     = Some \<lparr>m_start = 0, m_end = 0, m_groups = []\<rparr>
   \<and> finditer_from \<lparr>re_code = Star (Lit (CHR ''x'')), re_groups = 0, re_flags = 0\<rparr> ''ab'' 0
     = \<lparr>m_start = 0, m_end = 0, m_groups = []\<rparr>
       # finditer_from \<lparr>re_code = Star (Lit (CHR ''x'')), re_groups = 0, re_flags = 0\<rparr> ''ab'' (Suc 0)
   \<and> split_from \<lparr>re_code = Star (Lit (CHR ''x'')), re_groups = 0, re_flags = 0\<rparr> ''ab'' 0 0
     = split_from \<lparr>re_code = Star (Lit (CHR ''x'')), re_groups = 0, re_flags = 0\<rparr> ''ab'' (Suc 0) 0
   \<and> (\<exists>spans. fst (span_tokenize (RegexpTokenizer (PatternStr ''x*'') True True default_flags) ''ab'')
                 = Inr spans)"
proof -
  define xs where "xs = \<lparr>re_code = Star (Lit (CHR ''x'')), re_groups = 0, re_flags = 0\<rparr>"
  define m0 where "m0 = \<lparr>m_start = 0, m_end = 0, m_groups = []\<rparr>"
  let ?tk = "RegexpTokenizer (PatternStr ''x*'') True True default_flags"
  have c: "check_regexp ?tk = Inr (?tk\<lparr>tk_regexp := Some xs\<rparr>, xs)"
    unfolding xs_def by code_simp
  have s: "search xs ''ab'' 0 = Some m0"
    unfolding xs_def m0_def by code_simp
  have e: "m_start m0 = m_end m0" "m_end m0 = 0"
    by (simp_all add: m0_def)
  note t = scan_terminates_and_advances[OF c, of "''ab''"]
  from t have "\<exists>spans. span_tokenize ?tk ''ab'' = (Inr spans, ?tk\<lparr>tk_regexp := Some xs\<rparr>)"
    by blast
  then have 1: "\<exists>spans. fst (span_tokenize ?tk ''ab'') = Inr spans"
    by auto
  from t s e have 2: "finditer_from xs ''ab'' 0 = m0 # finditer_from xs ''ab'' (Suc 0)"
    by metis
  from t s e have "\<forall>lastp. lastp \<noteq> length ''ab'' \<longrightarrow>
      split_from xs ''ab'' 0 lastp = split_from xs ''ab'' (Suc 0) lastp"
    by metis
  then have 3: "split_from xs ''ab'' 0 0 = split_from xs ''ab'' (Suc 0) 0"
    by simp
  from s 1 2 3 show ?thesis
    unfolding xs_def m0_def by blast
qed

subsection \<open>Spans and tokens\<close>

lemma rmatch_caps_length:
  "st' \<in> set (rmatch fl r s st) \<Longrightarrow> length (snd st') = length (snd st)"
proof (induction fl r s st arbitrary: st' rule: rmatch.induct)
  case (7 fl a b s st)
  from "7.prems" obtain st1 where a: "st1 \<in> set (rmatch fl a s st)"
    and b: "st' \<in> set (rmatch fl b s st1)" by auto
  from "7.IH"(1)[OF a] "7.IH"(2)[OF a b] show ?case by simp
next
  case (8 fl a b s st)
  from "8.prems" have "st' \<in> set (rmatch fl a s st) \<or> st' \<in> set (rmatch fl b s st)" by simp
  with "8.IH" show ?case by blast
next
  case (9 fl a s st)
  show ?case
  proof (cases "st' = st")
    case True
    then show ?thesis by simp
  next
    case False
    note eq = rmatch.simps(9)[of fl a s st]
    from False "9.prems" obtain st1 where a: "st1 \<in> set (rmatch fl a s st)"
      and g: "fst st < fst st1 \<and> fst st1 \<le> length s"
      and b: "st' \<in> set (rmatch fl (Star a) s st1)"
      unfolding eq by (auto split: if_splits)
    from "9.IH"(1)[OF a] "9.IH"(2)[OF a g b] show ?thesis by simp
  qed
next
  case (10 fl a s st)
  from "10.prems" obtain st1 where a: "st1 \<in> set (rmatch fl a s st)"
    and b: "st' \<in> set (rmatch fl (Star a) s st1)" by auto
  from "10.IH"(1)[OF a] "10.IH"(2)[OF a b] show ?case by simp
next
  case (11 fl a s st)
  from "11.prems" consider (more) "st' \<in> set (rmatch fl a s st)" | (stop) "st' = st" by auto
  then show ?case
  proof cases
    case more
    from "11.IH"[OF more] show ?thesis .
  next
    case stop
    then show ?thesis by simp
  qed
next
  case (12 fl g a s st)
  from "12.prems" obtain st1 where a: "st1 \<in> set (rmatch fl a s st)"
    and e: "snd st' = (case g of None \<Rightarrow> snd st1
                        | Some k \<Rightarrow> (snd st1)[k - 1 := Some (fst st, fst st1)])"
    by auto
  from "12.IH"[OF a] e show ?case by (cases g) simp_all
qed (simp_all split: if_splits)

lemma match_at_groups:
  assumes "match_at p s i = Some m"
  shows "length (m_groups m) = re_groups p"
proof -
  from assms obtain st rest where
    r: "rmatch (re_flags p) (re_code p) s (i, replicate (re_groups p) None) = st # rest"
    and m: "m = \<lparr>m_start = i, m_end = fst st, m_groups = snd st\<rparr>"
    by (auto simp: match_at_def split: list.splits)
  from r have "st \<in> set (rmatch (re_flags p) (re_code p) s (i, replicate (re_groups p) None))"
    by simp
  from rmatch_caps_length[OF this] m show ?thesis by simp
qed

lemma search_groups:
  "search p s pos = Some m \<Longrightarrow> length (m_groups m) = re_groups p"
proof (induction p s pos rule: search.induct)
  case (1 p s pos)
  show ?case
  proof (cases "length s < pos")
    case True
    with "1.prems" show ?thesis by (simp add: search.simps)
  next
    case False
    show ?thesis
    proof (cases "match_at p s pos")
      case None
      with False "1.prems" have "search p s (Suc pos) = Some m"
        by (simp add: search.simps[of p s pos])
      with "1.IH"[OF False None] show ?thesis by simp
    next
      case (Some m')
      with False "1.prems" have "m' = m" by (simp add: search.simps[of p s pos])
      with Some match_at_groups[of p s pos m] show ?thesis by simp
    qed
  qed
qed

lemma findall_is_finditer:
  assumes "re_groups p = 0"
  shows "findall_from p s pos = slices s (map (\<lambda>m. (m_start m, m_end m)) (finditer_from p s pos))"
  using assms
proof (induction p s pos rule: finditer_from.induct)
  case (1 p s start)
  show ?case
  proof (cases "search p s start")
    case None
    then show ?thesis
      by (simp add: finditer_from.simps[of p s start] findall_from.simps[of p s start] slices_def)
  next
    case (Some m)
    from next_start_advances[OF Some] have le: "\<not> length s < start" by simp
    from "1.IH"[OF Some "1.prems"] Some le "1.prems" show ?thesis
      by (simp add: finditer_from.simps[of p s start] findall_from.simps[of p s start]
          slices_def findall_item_def)
  qed
qed

lemma span_loop_bounds:
  "(l, r) \<in> set (span_loop (finditer_from p s pos) lastp (length s)) \<Longrightarrow>
   lastp \<le> pos \<Longrightarrow> lastp \<le> length s \<Longrightarrow> l \<le> r \<and> r \<le> length s"
proof (induction p s pos arbitrary: lastp rule: finditer_from.induct)
  case (1 p s start)
  show ?case
  proof (cases "search p s start")
    case None
    with "1.prems" show ?thesis by (simp add: finditer_from.simps[of p s start])
  next
    case (Some m)
    note b = search_bounds[OF Some]
    from Some "1.prems"(1) consider (here) "(l, r) = (lastp, m_start m)"
      | (later) "(l, r) \<in> set (span_loop (finditer_from p s (next_start m)) (m_end m) (length s))"
      by (auto simp: finditer_from.simps[of p s start])
    then show ?thesis
    proof cases
      case here
      with b "1.prems"(2) show ?thesis by simp
    next
      case later
      from b have "m_end m \<le> next_start m" "m_end m \<le> length s"
        by (simp_all add: next_start_def)
      from "1.IH"[OF Some later this] show ?thesis .
    qed
  qed
qed

lemma split_is_span_loop:
  assumes "re_groups p = 0"
    and "\<forall>m \<in> set (finditer_from p s pos). m_start m \<noteq> m_end m"
  shows "split_from p s pos lastp = slices s (span_loop (finditer_from p s pos) lastp (length s))"
  using assms
proof (induction p s pos arbitrary: lastp rule: finditer_from.induct)
  case (1 p s start)
  show ?case
  proof (cases "search p s start")
    case None
    then show ?thesis
      by (simp add: finditer_from.simps[of p s start] split_from.simps[of p s start lastp]
          slices_def)
  next
    case (Some m)
    from Some have f: "finditer_from p s start = m # finditer_from p s (next_start m)"
      by (simp add: finditer_from.simps[of p s start])
    from f "1.prems"(2) have ne: "m_start m \<noteq> m_end m"
      and rest: "\<forall>m' \<in> set (finditer_from p s (next_start m)). m_start m' \<noteq> m_end m'"
      by simp_all
    from ne have n: "next_start m = m_end m" by (auto simp: next_start_def)
    from search_groups[OF Some] "1.prems"(1) have g: "m_groups m = []" by simp
    from "1.IH"[OF Some "1.prems"(1) rest, of "m_end m"] n
    have ih: "split_from p s (m_end m) (m_end m)
               = slices s (span_loop (finditer_from p s (m_end m)) (m_end m) (length s))"
      by simp
    from Some ne g ih f n show ?thesis
      by (simp add: split_from.simps[of p s start lastp] slices_def)
  qed
qed

lemma truthy_slices:
  assumes "\<forall>(l, r) \<in> set spans. l \<le> r \<and> r \<le> length s"
  shows "filter truthy (slices s spans) = slices s (filter (\<lambda>(l, r). l \<noteq> r) spans)"
  using assms
proof (induction spans)
  case Nil
  then show ?case by (simp add: slices_def)
next
  case (Cons x xs)
  obtain l r where x: "x = (l, r)" by (cases x)
  from Cons.prems x have b: "l \<le> r" "r \<le> length s" by simp_all
  then have "slice s l r \<noteq> [] \<longleftrightarrow> l \<noteq> r"
    by (auto simp: slice_def)
  with Cons x show ?case by (simp add: slices_def)
qed

text \<open>
  C1 (as amended). For a pattern that compiles and has no capturing group: in TOKEN mode,
  for every text, the substrings \<^verbatim>\<open>text[s:e]\<close> of the spans \<^verbatim>\<open>(s, e)\<close> that
  \<^verbatim>\<open>span_tokenize\<close> yields are the tokens of \<^verbatim>\<open>tokenize\<close>, in the same order; in GAP
  mode, for either value of \<^verbatim>\<open>discard_empty\<close>, they are whenever no separator match in
  the text is empty.
\<close>

theorem spans_slice_to_tokens:
  assumes "check_regexp tk = Inr (tk', r)" and "re_groups r = 0"
  shows "(\<not> tk_gaps tk \<longrightarrow>
            map_sum id (slices text) (fst (span_tokenize tk text)) = fst (tokenize tk text))
         \<and> (tk_gaps tk \<and> (\<forall>m \<in> set (finditer r text). m_start m \<noteq> m_end m) \<longrightarrow>
            map_sum id (slices text) (fst (span_tokenize tk text)) = fst (tokenize tk text))"
proof -
  note tok = tokenize_ok[OF assms(1), of "text"]
  note spn = span_tokenize_ok[OF assms(1), of "text"]
  have token_mode: "map_sum id (slices text) (fst (span_tokenize tk text)) = fst (tokenize tk text)"
    if "\<not> tk_gaps tk"
    using that findall_is_finditer[OF assms(2), of "text" 0]
    by (simp add: tok spn findall_def finditer_def)
  have gap_mode: "map_sum id (slices text) (fst (span_tokenize tk text)) = fst (tokenize tk text)"
    if g: "tk_gaps tk" and ne: "\<forall>m \<in> set (finditer r text). m_start m \<noteq> m_end m"
  proof -
    let ?spans = "span_loop (finditer_from r text 0) 0 (length text)"
    from ne have ne': "\<forall>m \<in> set (finditer_from r text 0). m_start m \<noteq> m_end m"
      by (simp add: finditer_def)
    from split_is_span_loop[OF assms(2) ne', of 0]
    have sp: "re_split r text = slices text ?spans"
      by (simp add: re_split_def)
    have bounds: "\<forall>(l, r) \<in> set ?spans. l \<le> r \<and> r \<le> length text"
      using span_loop_bounds[of _ _ r "text" 0 0] by auto
    show ?thesis
    proof (cases "tk_discard_empty tk")
      case True
      with g truthy_slices[OF bounds] sp show ?thesis
        by (simp add: tok spn regexp_span_tokenize_def finditer_def)
    next
      case False
      with g sp show ?thesis
        by (simp add: tok spn regexp_span_tokenize_def finditer_def)
    qed
  qed
  from token_mode gap_mode show ?thesis by blast
qed

theorem spans_slice_to_tokens_witness:
  "map_sum id (slices ''Good $3.88'') (fst (span_tokenize WordPunctTokenizer ''Good $3.88''))
     = fst (tokenize WordPunctTokenizer ''Good $3.88'')
   \<and> map_sum id (slices '' a  b '') (fst (span_tokenize WhitespaceTokenizer '' a  b ''))
     = fst (tokenize WhitespaceTokenizer '' a  b '')"
proof -
  define ws where "ws = \<lparr>re_code = Plus (In False [Cat Space]), re_groups = 0, re_flags = 0\<rparr>"
  define wp where "wp = \<lparr>re_code = Alt (Plus (In False [Cat Word]))
                                       (Plus (In True [Cat Word, Cat Space])),
                          re_groups = 0, re_flags = 0\<rparr>"
  have c1: "check_regexp WordPunctTokenizer = Inr (WordPunctTokenizer\<lparr>tk_regexp := Some wp\<rparr>, wp)"
    unfolding wp_def by code_simp
  have c2: "check_regexp WhitespaceTokenizer = Inr (WhitespaceTokenizer\<lparr>tk_regexp := Some ws\<rparr>, ws)"
    unfolding ws_def by code_simp
  have g1: "re_groups wp = 0" "\<not> tk_gaps WordPunctTokenizer"
    by (simp_all add: wp_def WordPunctTokenizer_def RegexpTokenizer_def)
  have g2: "re_groups ws = 0" "tk_gaps WhitespaceTokenizer"
    by (simp_all add: ws_def WhitespaceTokenizer_def RegexpTokenizer_def)
  have ne: "\<forall>m \<in> set (finditer ws '' a  b ''). m_start m \<noteq> m_end m"
    unfolding ws_def by code_simp
  from spans_slice_to_tokens[OF c1 g1(1), of "''Good $3.88''"] g1(2)
  have 1: "map_sum id (slices ''Good $3.88'') (fst (span_tokenize WordPunctTokenizer ''Good $3.88''))
             = fst (tokenize WordPunctTokenizer ''Good $3.88'')"
    by blast
  from spans_slice_to_tokens[OF c2 g2(1), of "'' a  b ''"] g2(2) ne
  have 2: "map_sum id (slices '' a  b '') (fst (span_tokenize WhitespaceTokenizer '' a  b ''))
             = fst (tokenize WhitespaceTokenizer '' a  b '')"
    by blast
  from 1 2 show ?thesis by blast
qed

text \<open>C1 as stated fails. In TOKEN mode with the pattern \<^verbatim>\<open>(a)b\<close> the span of \<^verbatim>\<open>"ab"\<close>
  is \<^verbatim>\<open>(0, 2)\<close> and the token is \<^verbatim>\<open>"a"\<close>. In GAP mode with the pattern \<^verbatim>\<open>x*\<close>, which
  matches the empty string at every position of \<^verbatim>\<open>"ab"\<close>, the spans lie between the
  empty matches, and the \<^verbatim>\<open>re.split\<close> of Python 2 does not split at an empty match.\<close>

theorem spans_slice_to_tokens_counterexample:
  "map_sum id (slices ''ab'')
       (fst (span_tokenize (RegexpTokenizer (PatternStr ''(a)b'') False True default_flags) ''ab''))
     = Inr [Str ''ab'']
   \<and> fst (tokenize (RegexpTokenizer (PatternStr ''(a)b'') False True default_flags) ''ab'')
     = Inr [Str ''a'']
   \<and> map_sum id (slices ''ab'')
       (fst (span_tokenize (RegexpTokenizer (PatternStr ''x*'') True False default_flags) ''ab''))
     = Inr [Str [], Str ''a'', Str ''b'', Str []]
   \<and> fst (tokenize (RegexpTokenizer (PatternStr ''x*'') True False default_flags) ''ab'')
     = Inr [Str ''ab'']"
  by code_simp

subsection \<open>The whitespace tokenizer\<close>

lemma words_acc_nonspace:
  "\<forall>c \<in> set u. \<not> is_space c \<Longrightarrow> words_acc (u @ t) cur = words_acc t (cur @ u)"
  by (induction u arbitrary: cur) simp_all

lemma words_acc_spaces:
  "\<forall>c \<in> set v. is_space c \<Longrightarrow> words_acc (v @ t) [] = words_acc t []"
  by (induction v) simp_all

lemma words_acc_gap:
  assumes "\<forall>c \<in> set u. \<not> is_space c" and "\<forall>c \<in> set v. is_space c" and "v \<noteq> []"
  shows "words_acc (u @ v @ t) [] = (if u = [] then [] else [u]) @ words_acc t []"
proof -
  obtain c v' where v: "v = c # v'" using assms(3) by (cases v) auto
  with assms(2) have c: "is_space c" and v': "\<forall>c \<in> set v'. is_space c" by simp_all
  have "words_acc (u @ v @ t) [] = words_acc (c # (v' @ t)) u"
    using words_acc_nonspace[OF assms(1), of "v @ t" "[]"] v by simp
  also have "\<dots> = (if u = [] then [] else [u]) @ words_acc (v' @ t) []"
    using c by simp
  finally show ?thesis using words_acc_spaces[OF v'] by simp
qed

lemma words_acc_end:
  assumes "\<forall>c \<in> set u. \<not> is_space c"
  shows "words_acc u [] = (if u = [] then [] else [u])"
  using words_acc_nonspace[OF assms, of "[]" "[]"] by simp

lemma star_space_sound:
  "st' \<in> set (rmatch fl (Star (In False [Cat Space])) s st) \<Longrightarrow>
   fst st \<le> fst st' \<and> (\<forall>k. fst st \<le> k \<and> k < fst st' \<longrightarrow> is_space (s ! k))"
proof (induction "length s - fst st" arbitrary: st rule: less_induct)
  case less
  note eq = rmatch.simps(9)[of fl "In False [Cat Space]" s st]
  show ?case
  proof (cases "st' = st")
    case True
    then show ?thesis by auto
  next
    case False
    with less.prems obtain st1 where a: "st1 \<in> set (rmatch fl (In False [Cat Space]) s st)"
      and g: "fst st < fst st1" "fst st1 \<le> length s"
      and b: "st' \<in> set (rmatch fl (Star (In False [Cat Space])) s st1)"
      unfolding eq by (auto split: if_splits)
    from a have st1: "fst st1 = Suc (fst st)" and sp: "is_space (s ! fst st)"
      and lt: "fst st < length s"
      by (auto simp: in_class_def split: if_splits)
    from lt st1 have "length s - fst st1 < length s - fst st" by simp
    from less.hyps[OF this b] have ih: "fst st1 \<le> fst st'"
      "\<forall>k. fst st1 \<le> k \<and> k < fst st' \<longrightarrow> is_space (s ! k)" by simp_all
    have "is_space (s ! k)" if "fst st \<le> k" "k < fst st'" for k
    proof (cases "k = fst st")
      case True
      with sp show ?thesis by simp
    next
      case False
      with that st1 have "fst st1 \<le> k" by simp
      with ih(2) that(2) show ?thesis by simp
    qed
    with ih(1) st1 show ?thesis by simp
  qed
qed

lemma star_nonempty: "rmatch fl (Star a) s st \<noteq> []"
  by (simp add: rmatch.simps(9))

lemma ws_match_at_Some:
  assumes "match_at ws_pattern s i = Some m"
  shows "m_start m = i \<and> i < m_end m \<and> (\<forall>k. i \<le> k \<and> k < m_end m \<longrightarrow> is_space (s ! k))
         \<and> m_groups m = []"
proof -
  let ?A = "In False [Cat Space]"
  from assms obtain st rest where
    r: "rmatch 0 (Plus ?A) s (i, []) = st # rest"
    and m: "m = \<lparr>m_start = i, m_end = fst st, m_groups = snd st\<rparr>"
    by (auto simp: match_at_def ws_pattern_def split: list.splits)
  from r have "st \<in> set (rmatch 0 (Plus ?A) s (i, []))" by simp
  then obtain st1 where a: "st1 \<in> set (rmatch 0 ?A s (i, []))"
    and b: "st \<in> set (rmatch 0 (Star ?A) s st1)" by auto
  from a have st1: "st1 = (Suc i, [])" and sp: "is_space (s ! i)"
    by (auto simp: in_class_def split: if_splits)
  from star_space_sound[OF b] st1 have le: "Suc i \<le> fst st"
    and al: "\<forall>k. Suc i \<le> k \<and> k < fst st \<longrightarrow> is_space (s ! k)" by simp_all
  from rmatch_caps_length[OF b] st1 have g: "snd st = []" by simp
  have "is_space (s ! k)" if "i \<le> k" "k < fst st" for k
  proof (cases "k = i")
    case True
    with sp show ?thesis by simp
  next
    case False
    with that al show ?thesis by simp
  qed
  with le m g show ?thesis by simp
qed

lemma ws_match_at_None:
  assumes "match_at ws_pattern s i = None" and "i < length s"
  shows "\<not> is_space (s ! i)"
proof
  assume sp: "is_space (s ! i)"
  let ?A = "In False [Cat Space]"
  from sp assms(2) have "rmatch 0 ?A s (i, []) = [(Suc i, [])]"
    by (simp add: in_class_def)
  then have "rmatch 0 (Plus ?A) s (i, []) = rmatch 0 (Star ?A) s (Suc i, [])"
    by simp
  with star_nonempty[of 0 ?A s "(Suc i, [])"] have "rmatch 0 (Plus ?A) s (i, []) \<noteq> []"
    by simp
  with assms(1) show False
    by (simp add: match_at_def ws_pattern_def split: list.splits)
qed

lemma ws_search_Some:
  "search ws_pattern s pos = Some m \<Longrightarrow>
     pos \<le> m_start m \<and> m_start m < m_end m \<and> m_end m \<le> length s \<and> m_groups m = []
     \<and> (\<forall>k. pos \<le> k \<and> k < m_start m \<longrightarrow> \<not> is_space (s ! k))
     \<and> (\<forall>k. m_start m \<le> k \<and> k < m_end m \<longrightarrow> is_space (s ! k))"
proof (induction "ws_pattern" s pos rule: search.induct)
  case (1 s pos)
  show ?case
  proof (cases "length s < pos")
    case True
    with "1.prems" show ?thesis by (simp add: search.simps)
  next
    case False
    show ?thesis
    proof (cases "match_at ws_pattern s pos")
      case None
      with False "1.prems" have s: "search ws_pattern s (Suc pos) = Some m"
        by (simp add: search.simps[of ws_pattern s pos])
      note ih = "1.hyps"[OF False None s]
      from search_bounds[OF s] have "pos < length s" by simp
      from ws_match_at_None[OF None this] have ns: "\<not> is_space (s ! pos)" .
      have "\<not> is_space (s ! k)" if "pos \<le> k" "k < m_start m" for k
      proof (cases "k = pos")
        case True
        with ns show ?thesis by simp
      next
        case False
        with that ih show ?thesis by simp
      qed
      with ih show ?thesis by simp
    next
      case (Some m')
      with False "1.prems" have "m' = m" by (simp add: search.simps[of ws_pattern s pos])
      with Some ws_match_at_Some[of s pos m] search_bounds[OF "1.prems"] show ?thesis by simp
    qed
  qed
qed

lemma ws_search_None:
  "search ws_pattern s pos = None \<Longrightarrow> \<forall>k. pos \<le> k \<and> k < length s \<longrightarrow> \<not> is_space (s ! k)"
proof (induction "ws_pattern" s pos rule: search.induct)
  case (1 s pos)
  show ?case
  proof (cases "length s < pos")
    case True
    then show ?thesis by auto
  next
    case False
    from False "1.prems" have n: "match_at ws_pattern s pos = None"
      and s: "search ws_pattern s (Suc pos) = None"
      by (simp_all add: search.simps[of ws_pattern s pos] split: option.splits)
    note ih = "1.hyps"[OF False n s]
    have "\<not> is_space (s ! k)" if "pos \<le> k" "k < length s" for k
    proof (cases "k = pos")
      case True
      with ws_match_at_None[OF n] that show ?thesis by simp
    next
      case False
      with that ih show ?thesis by simp
    qed
    then show ?thesis by simp
  qed
qed

lemma slice_set:
  assumes "\<forall>k. a \<le> k \<and> k < b \<longrightarrow> P (s ! k)" and "b \<le> length s"
  shows "\<forall>c \<in> set (slice s a b). P c"
proof
  fix c assume "c \<in> set (slice s a b)"
  then obtain k where k: "k < length (slice s a b)" and c: "c = slice s a b ! k"
    by (auto simp: in_set_conv_nth)
  from k assms(2) have kb: "k < b - a" by (simp add: slice_def)
  with assms(2) c have "c = s ! (a + k)" by (simp add: slice_def)
  with kb assms(1) show "P c" by simp
qed

lemma drop_slice:
  assumes "a \<le> b" and "b \<le> length s"
  shows "drop a s = slice s a b @ drop b s"
proof -
  have "drop a s = take (b - a) (drop a s) @ drop (b - a) (drop a s)"
    by (simp only: append_take_drop_id)
  moreover from assms have "drop (b - a) (drop a s) = drop b s" by simp
  ultimately show ?thesis by (simp only: slice_def)
qed

lemma ws_split_words:
  "p = ws_pattern \<Longrightarrow> lastp = pos \<Longrightarrow> pos \<le> length s \<Longrightarrow>
   filter truthy (split_from p s pos lastp) = map Str (words_acc (drop pos s) [])"
proof (induction p s pos lastp rule: split_from.induct)
  case (1 p s start lastp)
  note p = "1.prems"(1) and l = "1.prems"(2) and le = "1.prems"(3)
  show ?case
  proof (cases "search p s start")
    case None
    with p have "\<forall>k. start \<le> k \<and> k < length s \<longrightarrow> \<not> is_space (s ! k)"
      using ws_search_None[of s start] by simp
    from slice_set[OF this] have "\<forall>c \<in> set (drop start s). \<not> is_space c"
      by (simp add: slice_def)
    from words_acc_end[OF this]
    have w: "words_acc (drop start s) [] = (if drop start s = [] then [] else [drop start s])" .
    from None have "split_from p s start lastp = [Str (slice s lastp (length s))]"
      by (simp add: split_from.simps[of p s start lastp])
    with l have "split_from p s start lastp = [Str (drop start s)]"
      by (simp add: slice_def)
    with w show ?thesis by simp
  next
    case (Some m)
    with p ws_search_Some[of s start m]
    have b: "start \<le> m_start m" "m_start m < m_end m" "m_end m \<le> length s" "m_groups m = []"
      and ns: "\<forall>k. start \<le> k \<and> k < m_start m \<longrightarrow> \<not> is_space (s ! k)"
      and sp: "\<forall>k. m_start m \<le> k \<and> k < m_end m \<longrightarrow> is_space (s ! k)"
      by simp_all
    let ?u = "slice s start (m_start m)" and ?v = "slice s (m_start m) (m_end m)"
    from b have ne: "m_start m \<noteq> m_end m" by simp
    from slice_set[OF ns] b have u: "\<forall>c \<in> set ?u. \<not> is_space c" by simp
    from slice_set[OF sp] b have v: "\<forall>c \<in> set ?v. is_space c" by simp
    from b have vne: "?v \<noteq> []" by (simp add: slice_def)
    from b have "drop start s = ?u @ drop (m_start m) s"
      by (intro drop_slice) simp_all
    also from b have "drop (m_start m) s = ?v @ drop (m_end m) s"
      by (intro drop_slice) simp_all
    finally have d: "drop start s = ?u @ ?v @ drop (m_end m) s" .
    from "1.IH"(2)[OF Some ne p refl b(3)]
    have ih: "filter truthy (split_from p s (m_end m) (m_end m))
                = map Str (words_acc (drop (m_end m) s) [])" .
    from Some ne b(4) have "split_from p s start lastp
        = Str (slice s lastp (m_start m)) # split_from p s (m_end m) (m_end m)"
      by (simp add: split_from.simps[of p s start lastp])
    with l have "filter truthy (split_from p s start lastp)
        = (if ?u = [] then [] else [Str ?u]) @ filter truthy (split_from p s (m_end m) (m_end m))"
      by simp
    also have "\<dots> = map Str ((if ?u = [] then [] else [?u]) @ words_acc (drop (m_end m) s) [])"
      using ih by simp
    also have "\<dots> = map Str (words_acc (drop start s) [])"
      using words_acc_gap[OF u v vne, of "drop (m_end m) s"] d by simp
    finally show ?thesis .
  qed
qed

lemma words_acc_wordlike:
  "w \<in> set (words_acc t cur) \<Longrightarrow> \<forall>c \<in> set cur. \<not> is_space c \<Longrightarrow> wordlike w"
proof (induction t arbitrary: cur)
  case Nil
  then show ?case by (auto simp: wordlike_def split: if_splits)
next
  case (Cons c cs)
  show ?case
  proof (cases "is_space c")
    case True
    with Cons.prems(1) consider (cur) "cur \<noteq> []" "w = cur" | (later) "w \<in> set (words_acc cs [])"
      by (auto split: if_splits)
    then show ?thesis
    proof cases
      case cur
      with Cons.prems(2) show ?thesis by (simp add: wordlike_def)
    next
      case later
      from Cons.IH[OF later] show ?thesis by simp
    qed
  next
    case False
    with Cons.prems(1) have "w \<in> set (words_acc cs (cur @ [c]))" by simp
    from Cons.IH[OF this] False Cons.prems(2) show ?thesis by simp
  qed
qed

lemma is_space_blank: "is_space (CHR '' '')"
  by (simp add: is_space_def ord_def)

lemma words_acc_join:
  "\<forall>w \<in> set ws. wordlike w \<Longrightarrow> words_acc (join '' '' ws) [] = ws"
proof (induction "'' ''" ws rule: join.induct)
  case 1
  then show ?case by simp
next
  case (2 x)
  then have "\<forall>c \<in> set x. \<not> is_space c" "x \<noteq> []" by (simp_all add: wordlike_def)
  with words_acc_end[of x] show ?case by simp
next
  case (3 x y ys)
  from "3.prems" have x: "\<forall>c \<in> set x. \<not> is_space c" "x \<noteq> []"
    and rest: "\<forall>w \<in> set (y # ys). wordlike w"
    by (simp_all add: wordlike_def)
  from words_acc_nonspace[OF x(1), of "'' '' @ join '' '' (y # ys)" "[]"] x(2) is_space_blank
  have "words_acc (join '' '' (x # y # ys)) [] = x # words_acc (join '' '' (y # ys)) []"
    by simp
  with "3.hyps"[OF rest] show ?case by simp
qed

lemma check_regexp_whitespace:
  "check_regexp WhitespaceTokenizer
     = Inr (WhitespaceTokenizer\<lparr>tk_regexp := Some ws_pattern\<rparr>, ws_pattern)"
  unfolding ws_pattern_def by code_simp

lemma whitespace_tokens:
  "fst (tokenize WhitespaceTokenizer text) = Inr (map Str (words_acc text []))"
proof -
  have g: "tk_gaps WhitespaceTokenizer" "tk_discard_empty WhitespaceTokenizer"
    by (simp_all add: WhitespaceTokenizer_def RegexpTokenizer_def)
  from ws_split_words[OF refl refl, of 0 "text"] g show ?thesis
    by (simp add: tokenize_ok[OF check_regexp_whitespace] re_split_def)
qed

text \<open>
  C8. For every text, the tokens of the whitespace tokenizer are strings, and tokenizing
  the string made by joining them with one space gives the same tokens again.
\<close>

theorem whitespace_join_idempotent:
  "\<exists>ws. fst (tokenize WhitespaceTokenizer text) = Inr (map Str ws)
        \<and> fst (tokenize WhitespaceTokenizer (join '' '' ws)) = Inr (map Str ws)"
proof -
  let ?ws = "words_acc text []"
  have "\<forall>w \<in> set ?ws. wordlike w"
    using words_acc_wordlike[of _ "text" "[]"] by simp
  from words_acc_join[OF this] whitespace_tokens[of "join '' '' ?ws"]
  have "fst (tokenize WhitespaceTokenizer (join '' '' ?ws)) = Inr (map Str ?ws)"
    by simp
  with whitespace_tokens[of "text"] show ?thesis by blast
qed

end
